theory Spec2Isabelle
  imports Complex_Main
begin

section \<open>The environment: wall clock and random source\<close>

text \<open>
  The simulator reads the wall clock (\<^verbatim>\<open>time.time()\<close>) and Python's global random
  source. Both are modelled as oracles held in a \<open>world\<close> that is threaded through every
  operation: the \<open>n\<close>-th reading of the clock is \<open>clock w n\<close>, the \<open>n\<close>-th raw draw of the
  random source is \<open>random_source w n\<close>. Timestamps are only ever compared, so the
  floats of the source are taken as reals.
\<close>

datatype error = ZeroDivisionError | ValueError | IndexError

record world =
  clock :: "nat \<Rightarrow> real"
  ticks :: nat
  random_source :: "nat \<Rightarrow> int"
  draws :: nat

definition time_time :: "world \<Rightarrow> real \<times> world" where
  "time_time w = (clock w (ticks w), w\<lparr>ticks := Suc (ticks w)\<rparr>)"

definition random_draw :: "world \<Rightarrow> int \<times> world" where
  "random_draw w = (random_source w (draws w), w\<lparr>draws := Suc (draws w)\<rparr>)"

text \<open>\<^verbatim>\<open>random.randint(a, b)\<close>: a value of \<open>[a, b]\<close>, ValueError on an empty range.\<close>

definition randint :: "int \<Rightarrow> int \<Rightarrow> world \<Rightarrow> error + (int \<times> world)" where
  "randint a b w =
     (if b < a then Inl ValueError
      else (case random_draw w of (r, w') \<Rightarrow> Inr (a + r mod (b - a + 1), w')))"

section \<open>CacheBlock\<close>

record CacheBlock =
  tag :: int
  last_access :: real
  insertion_time :: real
  access_count :: int

text \<open>The constructor reads the clock twice: once for each timestamp.\<close>

definition CacheBlock_init :: "int \<Rightarrow> world \<Rightarrow> CacheBlock \<times> world" where
  "CacheBlock_init t w =
     (case time_time w of (la, w1) \<Rightarrow>
      case time_time w1 of (it, w2) \<Rightarrow>
        (\<lparr>tag = t, last_access = la, insertion_time = it, access_count = 1\<rparr>, w2))"

section \<open>CacheSet\<close>

record CacheSet =
  capacity :: int
  blocks :: "CacheBlock list"
  policy :: string

definition CacheSet_init :: "int \<Rightarrow> string \<Rightarrow> CacheSet" where
  "CacheSet_init cap pol = \<lparr>capacity = cap, blocks = [], policy = pol\<rparr>"

text \<open>
  The scan shared by \<^verbatim>\<open>CacheSet.access\<close> and the first loop of \<^verbatim>\<open>CacheSet.insert\<close>:
  the first block carrying the tag gets a fresh \<open>last_access\<close> and one more
  \<open>access_count\<close>; the result says whether one was found.
\<close>

fun touch_blocks :: "CacheBlock list \<Rightarrow> int \<Rightarrow> world \<Rightarrow> bool \<times> CacheBlock list \<times> world" where
  "touch_blocks [] t w = (False, [], w)"
| "touch_blocks (b # bs) t w =
     (if tag b = t
      then (case time_time w of (now, w') \<Rightarrow>
              (True, b\<lparr>last_access := now, access_count := access_count b + 1\<rparr> # bs, w'))
      else (case touch_blocks bs t w of (r, bs', w') \<Rightarrow> (r, b # bs', w')))"

definition CacheSet_access :: "CacheSet \<Rightarrow> int \<Rightarrow> world \<Rightarrow> bool \<times> CacheSet \<times> world" where
  "CacheSet_access s t w =
     (case touch_blocks (blocks s) t w of (r, bs, w') \<Rightarrow> (r, s\<lparr>blocks := bs\<rparr>, w'))"

text \<open>
  Python's \<^verbatim>\<open>min(xs, key=f)\<close> and \<^verbatim>\<open>max(xs, key=f)\<close> keep the first extremal
  element: the candidate is replaced only by a strictly better one. The model returns
  the position of the chosen element, since the blocks are compared by identity when the
  victim is removed.
\<close>

fun min_scan :: "('a \<Rightarrow> 'k::linorder) \<Rightarrow> 'a list \<Rightarrow> nat \<Rightarrow> nat \<Rightarrow> 'k \<Rightarrow> nat" where
  "min_scan key [] i best k = best"
| "min_scan key (x # xs) i best k =
     (if key x < k then min_scan key xs (Suc i) i (key x)
      else min_scan key xs (Suc i) best k)"

fun max_scan :: "('a \<Rightarrow> 'k::linorder) \<Rightarrow> 'a list \<Rightarrow> nat \<Rightarrow> nat \<Rightarrow> 'k \<Rightarrow> nat" where
  "max_scan key [] i best k = best"
| "max_scan key (x # xs) i best k =
     (if k < key x then max_scan key xs (Suc i) i (key x)
      else max_scan key xs (Suc i) best k)"

definition min_index :: "('a \<Rightarrow> 'k::linorder) \<Rightarrow> 'a list \<Rightarrow> nat" where
  "min_index key xs = (case xs of [] \<Rightarrow> 0 | x # rest \<Rightarrow> min_scan key rest 1 0 (key x))"

definition max_index :: "('a \<Rightarrow> 'k::linorder) \<Rightarrow> 'a list \<Rightarrow> nat" where
  "max_index key xs = (case xs of [] \<Rightarrow> 0 | x # rest \<Rightarrow> max_scan key rest 1 0 (key x))"

definition remove_at :: "nat \<Rightarrow> 'a list \<Rightarrow> 'a list" where
  "remove_at i xs = take i xs @ drop (Suc i) xs"

text \<open>
  \<^verbatim>\<open>CacheSet.replace\<close>. The victim is \<open>None\<close> when the policy string is none of the
  five the chain of comparisons knows; then nothing is removed.
\<close>

definition choose_victim :: "CacheSet \<Rightarrow> world \<Rightarrow> nat option \<times> world" where
  "choose_victim s w =
     (if policy s = ''LRU'' then (Some (min_index last_access (blocks s)), w)
      else if policy s = ''MRU'' then (Some (max_index last_access (blocks s)), w)
      else if policy s = ''LFU'' then (Some (min_index access_count (blocks s)), w)
      else if policy s = ''FIFO'' then (Some (min_index insertion_time (blocks s)), w)
      else if policy s = ''Random''
        then (case random_draw w of (r, w') \<Rightarrow>
                (Some (nat (r mod int (length (blocks s)))), w'))
      else (None, w))"

definition CacheSet_replace :: "CacheSet \<Rightarrow> world \<Rightarrow> CacheSet \<times> world" where
  "CacheSet_replace s w =
     (if blocks s = [] then (s, w)
      else (case choose_victim s w of
              (None, w') \<Rightarrow> (s, w')
            | (Some i, w') \<Rightarrow> (s\<lparr>blocks := remove_at i (blocks s)\<rparr>, w')))"

definition CacheSet_insert :: "CacheSet \<Rightarrow> int \<Rightarrow> world \<Rightarrow> CacheSet \<times> world" where
  "CacheSet_insert s t w =
     (case touch_blocks (blocks s) t w of
        (True, bs, w1) \<Rightarrow> (s\<lparr>blocks := bs\<rparr>, w1)
      | (False, bs, w1) \<Rightarrow>
          (case (if capacity s \<le> int (length (blocks s)) then CacheSet_replace s w1 else (s, w1)) of
             (s2, w2) \<Rightarrow>
               (case CacheBlock_init t w2 of
                  (new_block, w3) \<Rightarrow> (s2\<lparr>blocks := blocks s2 @ [new_block]\<rparr>, w3))))"

section \<open>CacheLevel\<close>

record CacheLevel =
  name :: string
  size_bytes :: int
  block_size :: int
  associativity :: int
  access_time :: int
  level_policy :: string
  num_sets :: int
  sets :: "int \<rightharpoonup> CacheSet"
  hits :: int
  misses :: int

text \<open>
  \<^verbatim>\<open>int(a / b)\<close> on integers: true division, then truncation towards zero. The
  rounding of the intermediate float is left out (it is exact below \<open>2^53\<close>).
\<close>

definition int_truediv :: "int \<Rightarrow> int \<Rightarrow> error + int" where
  "int_truediv a b =
     (if b = 0 then Inl ZeroDivisionError else Inr (sgn a * sgn b * (\<bar>a\<bar> div \<bar>b\<bar>)))"

definition CacheLevel_init ::
  "string \<Rightarrow> int \<Rightarrow> int \<Rightarrow> int \<Rightarrow> int \<Rightarrow> string \<Rightarrow> error + CacheLevel" where
  "CacheLevel_init nm sz bs assoc t pol =
     (if assoc = 0
      then (case int_truediv sz bs of
              Inl e \<Rightarrow> Inl e
            | Inr q \<Rightarrow> Inr \<lparr>name = nm, size_bytes = sz, block_size = bs, associativity = q,
                           access_time = t, level_policy = pol, num_sets = 1,
                           sets = Map.empty, hits = 0, misses = 0\<rparr>)
      else (case int_truediv sz (bs * assoc) of
              Inl e \<Rightarrow> Inl e
            | Inr q \<Rightarrow> Inr \<lparr>name = nm, size_bytes = sz, block_size = bs, associativity = assoc,
                           access_time = t, level_policy = pol, num_sets = max 1 q,
                           sets = Map.empty, hits = 0, misses = 0\<rparr>))"

text \<open>Floor division and modulus of Python integers are \<open>div\<close> and \<open>mod\<close> on \<open>int\<close>.\<close>

definition get_index_and_tag :: "CacheLevel \<Rightarrow> int \<Rightarrow> error + (int \<times> int)" where
  "get_index_and_tag l address =
     (if block_size l = 0 \<or> num_sets l = 0 then Inl ZeroDivisionError
      else Inr ((address div block_size l) mod num_sets l,
                (address div block_size l) div num_sets l))"

definition CacheLevel_access ::
  "CacheLevel \<Rightarrow> int \<Rightarrow> world \<Rightarrow> error + (bool \<times> CacheLevel \<times> world)" where
  "CacheLevel_access l address w =
     (case get_index_and_tag l address of
        Inl e \<Rightarrow> Inl e
      | Inr (index, t) \<Rightarrow>
          (case sets l index of
             None \<Rightarrow> Inr (False, l, w)
           | Some s \<Rightarrow>
               (case CacheSet_access s t w of
                  (True, s', w') \<Rightarrow>
                    Inr (True, l\<lparr>sets := (sets l)(index \<mapsto> s'), hits := hits l + 1\<rparr>, w')
                | (False, s', w') \<Rightarrow>
                    Inr (False, l\<lparr>sets := (sets l)(index \<mapsto> s'), misses := misses l + 1\<rparr>, w'))))"

definition CacheLevel_insert :: "CacheLevel \<Rightarrow> int \<Rightarrow> world \<Rightarrow> error + (CacheLevel \<times> world)" where
  "CacheLevel_insert l address w =
     (case get_index_and_tag l address of
        Inl e \<Rightarrow> Inl e
      | Inr (index, t) \<Rightarrow>
          (case CacheSet_insert
                  (case sets l index of
                     None \<Rightarrow> CacheSet_init (associativity l) (level_policy l)
                   | Some s \<Rightarrow> s) t w of
             (s', w') \<Rightarrow> Inr (l\<lparr>sets := (sets l)(index \<mapsto> s')\<rparr>, w')))"

section \<open>MemoryHierarchy\<close>

record MemoryHierarchy =
  levels :: "CacheLevel list"
  disk_level :: "CacheLevel"

text \<open>
  The probing loop of \<^verbatim>\<open>access_memory\<close>: each level adds its access time and is
  probed; the loop stops at the first hit. The result is the position of the hit (if
  any), the time so far, the levels as the probes left them, and the world.
\<close>

fun probe_levels ::
  "CacheLevel list \<Rightarrow> int \<Rightarrow> world \<Rightarrow> error + (nat option \<times> int \<times> CacheLevel list \<times> world)" where
  "probe_levels [] address w = Inr (None, 0, [], w)"
| "probe_levels (l # ls) address w =
     (case CacheLevel_access l address w of
        Inl e \<Rightarrow> Inl e
      | Inr (True, l', w') \<Rightarrow> Inr (Some 0, access_time l, l' # ls, w')
      | Inr (False, l', w') \<Rightarrow>
          (case probe_levels ls address w' of
             Inl e \<Rightarrow> Inl e
           | Inr (pos, t, ls', w'') \<Rightarrow>
               Inr (map_option Suc pos, access_time l + t, l' # ls', w'')))"

text \<open>\<^verbatim>\<open>for j in range(i): self.levels[j].insert(address)\<close>\<close>

fun insert_prefix ::
  "nat \<Rightarrow> CacheLevel list \<Rightarrow> int \<Rightarrow> world \<Rightarrow> error + (CacheLevel list \<times> world)" where
  "insert_prefix 0 ls address w = Inr (ls, w)"
| "insert_prefix (Suc n) [] address w = Inl IndexError"
| "insert_prefix (Suc n) (l # ls) address w =
     (case CacheLevel_insert l address w of
        Inl e \<Rightarrow> Inl e
      | Inr (l', w') \<Rightarrow>
          (case insert_prefix n ls address w' of
             Inl e \<Rightarrow> Inl e
           | Inr (ls', w'') \<Rightarrow> Inr (l' # ls', w'')))"

text \<open>\<^verbatim>\<open>for level in self.levels: level.insert(address)\<close>\<close>

fun insert_all :: "CacheLevel list \<Rightarrow> int \<Rightarrow> world \<Rightarrow> error + (CacheLevel list \<times> world)" where
  "insert_all [] address w = Inr ([], w)"
| "insert_all (l # ls) address w =
     (case CacheLevel_insert l address w of
        Inl e \<Rightarrow> Inl e
      | Inr (l', w') \<Rightarrow>
          (case insert_all ls address w' of
             Inl e \<Rightarrow> Inl e
           | Inr (ls', w'') \<Rightarrow> Inr (l' # ls', w'')))"

definition access_memory ::
  "MemoryHierarchy \<Rightarrow> int \<Rightarrow> world \<Rightarrow> error + ((int \<times> string) \<times> MemoryHierarchy \<times> world)" where
  "access_memory h address w =
     (case probe_levels (levels h) address w of
        Inl e \<Rightarrow> Inl e
      | Inr (Some i, t, ls, w1) \<Rightarrow>
          (case insert_prefix i ls address w1 of
             Inl e \<Rightarrow> Inl e
           | Inr (ls', w2) \<Rightarrow> Inr ((t, name (ls ! i)), h\<lparr>levels := ls'\<rparr>, w2))
      | Inr (None, t, ls, w1) \<Rightarrow>
          (case CacheLevel_insert ((disk_level h)\<lparr>hits := hits (disk_level h) + 1\<rparr>) address w1 of
             Inl e \<Rightarrow> Inl e
           | Inr (d, w2) \<Rightarrow>
               (case insert_all ls address w2 of
                  Inl e \<Rightarrow> Inl e
                | Inr (ls', w3) \<Rightarrow>
                    Inr ((t + access_time (disk_level h), ''Disk''),
                         \<lparr>levels = ls', disk_level = d\<rparr>, w3))))"

text \<open>
  The configuration record the driver hands to the constructor. Its numeric entries come
  from integer input fields, the two switches are booleans, the policy is a string.
\<close>

record config =
  cfg_policy :: string
  cfg_block_size :: int
  l1_size :: int
  l1_assoc :: int
  l1_time :: int
  l2_enabled :: bool
  l2_size :: int
  l2_assoc :: int
  l2_time :: int
  l3_enabled :: bool
  l3_size :: int
  l3_assoc :: int
  l3_time :: int
  ram_size :: int
  ram_time :: int
  disk_size :: int
  disk_time :: int

definition optional_level :: "bool \<Rightarrow> error + CacheLevel \<Rightarrow> error + CacheLevel list" where
  "optional_level enabled made =
     (if enabled then (case made of Inl e \<Rightarrow> Inl e | Inr l \<Rightarrow> Inr [l]) else Inr [])"

definition MemoryHierarchy_init :: "config \<Rightarrow> error + MemoryHierarchy" where
  "MemoryHierarchy_init c =
     (case CacheLevel_init ''L1 Cache'' (l1_size c) (cfg_block_size c) (l1_assoc c)
             (l1_time c) (cfg_policy c) of
        Inl e \<Rightarrow> Inl e
      | Inr l1 \<Rightarrow>
     (case optional_level (l2_enabled c)
             (CacheLevel_init ''L2 Cache'' (l2_size c) (cfg_block_size c) (l2_assoc c)
                (l2_time c) (cfg_policy c)) of
        Inl e \<Rightarrow> Inl e
      | Inr l2 \<Rightarrow>
     (case optional_level (l3_enabled c)
             (CacheLevel_init ''L3 Cache'' (l3_size c) (cfg_block_size c) (l3_assoc c)
                (l3_time c) (cfg_policy c)) of
        Inl e \<Rightarrow> Inl e
      | Inr l3 \<Rightarrow>
     (case CacheLevel_init ''Main Memory (RAM)'' (ram_size c * 1024 * 1024) (cfg_block_size c) 8
             (ram_time c) (cfg_policy c) of
        Inl e \<Rightarrow> Inl e
      | Inr ram \<Rightarrow>
     (case CacheLevel_init ''Secondary Memory (Disk)'' (disk_size c * 1024 * 1024 * 1024)
             (cfg_block_size c) 1 (disk_time c) ''FIFO'' of
        Inl e \<Rightarrow> Inl e
      | Inr disk \<Rightarrow> Inr \<lparr>levels = [l1] @ l2 @ l3 @ [ram], disk_level = disk\<rparr>)))))"

section \<open>AccessPatternGenerator\<close>

record AccessPatternGenerator =
  max_address :: int

text \<open>The constructor stores its argument; it has no check and no way to fail.\<close>

definition AccessPatternGenerator_init :: "int \<Rightarrow> error + AccessPatternGenerator" where
  "AccessPatternGenerator_init m = Inr \<lparr>max_address = m\<rparr>"

text \<open>
  \<^verbatim>\<open>generate_locality\<close>. The loop runs over \<^verbatim>\<open>range(num_requests)\<close>; the modulus
  test divides by \<^verbatim>\<open>num_requests // 10\<close>, the address is reduced modulo
  \<open>max_address\<close>. The Gaussian offset, truncated to an integer, is a raw draw of the
  random source.
\<close>

fun locality_loop ::
  "int \<Rightarrow> int \<Rightarrow> nat list \<Rightarrow> int \<Rightarrow> int list \<Rightarrow> world \<Rightarrow> error + (int list \<times> world)" where
  "locality_loop m n [] hotspot addresses w = Inr (addresses, w)"
| "locality_loop m n (i # rest) hotspot addresses w =
     (if n div 10 = 0 then Inl ZeroDivisionError
      else (case (if int i mod (n div 10) = 0 then randint 0 m w else Inr (hotspot, w)) of
              Inl e \<Rightarrow> Inl e
            | Inr (hotspot', w1) \<Rightarrow>
                (case random_draw w1 of
                   (offset, w2) \<Rightarrow>
                     (if m = 0 then Inl ZeroDivisionError
                      else locality_loop m n rest hotspot'
                             (addresses @ [\<bar>hotspot' + offset\<bar> mod m - (\<bar>hotspot' + offset\<bar> mod m) mod 4])
                             w2))))"

definition generate_locality ::
  "AccessPatternGenerator \<Rightarrow> int \<Rightarrow> world \<Rightarrow> error + (int list \<times> world)" where
  "generate_locality g num_requests w =
     (case randint 0 (max_address g) w of
        Inl e \<Rightarrow> Inl e
      | Inr (hotspot, w1) \<Rightarrow>
          locality_loop (max_address g) num_requests [0 ..< nat num_requests] hotspot [] w1)"

section \<open>PerformanceAnalyzer\<close>

text \<open>The true division of the source is taken over the reals.\<close>

record PerformanceAnalyzer =
  hierarchy :: MemoryHierarchy
  total_time :: int
  num_requests :: int
  amat :: real


section \<open>Sequences of operations\<close>

datatype set_op = Touch int | Admit int

fun run_set_ops :: "set_op list \<Rightarrow> CacheSet \<Rightarrow> world \<Rightarrow> CacheSet \<times> world" where
  "run_set_ops [] s w = (s, w)"
| "run_set_ops (Touch t # ops) s w =
     (case CacheSet_access s t w of (r, s', w') \<Rightarrow> run_set_ops ops s' w')"
| "run_set_ops (Admit t # ops) s w =
     (case CacheSet_insert s t w of (s', w') \<Rightarrow> run_set_ops ops s' w')"

text \<open>Whether a probe of the level for the address finds a Set at the address's index.\<close>

definition reaches_set :: "CacheLevel \<Rightarrow> int \<Rightarrow> bool" where
  "reaches_set l address =
     (case get_index_and_tag l address of
        Inl e \<Rightarrow> False
      | Inr (index, t) \<Rightarrow> sets l index \<noteq> None)"

datatype level_op = Probe int | Warm int

text \<open>
  A sequence of probes and warm-ups on one level; the first component of the result
  counts the probes that reached an existing Set.
\<close>

fun run_level_ops ::
  "level_op list \<Rightarrow> CacheLevel \<Rightarrow> world \<Rightarrow> error + (nat \<times> CacheLevel \<times> world)" where
  "run_level_ops [] l w = Inr (0, l, w)"
| "run_level_ops (Probe a # ops) l w =
     (case CacheLevel_access l a w of
        Inl e \<Rightarrow> Inl e
      | Inr (r, l', w') \<Rightarrow>
          (case run_level_ops ops l' w' of
             Inl e \<Rightarrow> Inl e
           | Inr (n, l'', w'') \<Rightarrow> Inr ((if reaches_set l a then Suc n else n), l'', w'')))"
| "run_level_ops (Warm a # ops) l w =
     (case CacheLevel_insert l a w of
        Inl e \<Rightarrow> Inl e
      | Inr (l', w') \<Rightarrow> run_level_ops ops l' w')"

text \<open>The driver's loop: one \<^verbatim>\<open>access_memory\<close> per address, results collected.\<close>

fun run_accesses ::
  "int list \<Rightarrow> MemoryHierarchy \<Rightarrow> world \<Rightarrow> error + ((int \<times> string) list \<times> MemoryHierarchy \<times> world)" where
  "run_accesses [] h w = Inr ([], h, w)"
| "run_accesses (a # as) h w =
     (case access_memory h a w of
        Inl e \<Rightarrow> Inl e
      | Inr (r, h', w') \<Rightarrow>
          (case run_accesses as h' w' of
             Inl e \<Rightarrow> Inl e
           | Inr (rs, h'', w'') \<Rightarrow> Inr (r # rs, h'', w'')))"

text \<open>Projections used to state what a probe or a resolution returned.\<close>

definition probe_result :: "CacheLevel \<Rightarrow> int \<Rightarrow> world \<Rightarrow> error + bool" where
  "probe_result l address w =
     (case CacheLevel_access l address w of Inl e \<Rightarrow> Inl e | Inr (r, l', w') \<Rightarrow> Inr r)"

definition resolving_position :: "MemoryHierarchy \<Rightarrow> int \<Rightarrow> world \<Rightarrow> error + nat option" where
  "resolving_position h address w =
     (case probe_levels (levels h) address w of
        Inl e \<Rightarrow> Inl e
      | Inr (pos, t, ls, w') \<Rightarrow> Inr pos)"

text \<open>The tags resident in the Set at an index of a level (none when there is no Set).\<close>

definition resident_tags :: "CacheLevel \<Rightarrow> int \<Rightarrow> int list option" where
  "resident_tags l index = map_option (\<lambda>s. map tag (blocks s)) (sets l index)"

text \<open>
  Address decomposition divides by \<open>block_size\<close> and by \<open>num_sets\<close>. A level built by
  the constructor has both different from zero; the operations keep them.
\<close>

definition level_ok :: "CacheLevel \<Rightarrow> bool" where
  "level_ok l = (block_size l \<noteq> 0 \<and> num_sets l \<noteq> 0)"

definition hierarchy_ok :: "MemoryHierarchy \<Rightarrow> bool" where
  "hierarchy_ok h = (list_all level_ok (levels h) \<and> level_ok (disk_level h))"

section \<open>Facts about the scan and the victim choice\<close>

lemma touch_blocks_length: "touch_blocks bs t w = (r, bs', w') \<Longrightarrow> length bs' = length bs"
  by (induction bs arbitrary: r bs' w') (auto simp: time_time_def split: if_splits prod.splits)

lemma touch_blocks_tags: "touch_blocks bs t w = (r, bs', w') \<Longrightarrow> map tag bs' = map tag bs"
  by (induction bs arbitrary: r bs' w') (auto simp: time_time_def split: if_splits prod.splits)

lemma touch_blocks_insertion_time:
  "touch_blocks bs t w = (r, bs', w') \<Longrightarrow> map insertion_time bs' = map insertion_time bs"
  by (induction bs arbitrary: r bs' w') (auto simp: time_time_def split: if_splits prod.splits)

lemma touch_blocks_found: "touch_blocks bs t w = (r, bs', w') \<Longrightarrow> r = (t \<in> tag ` set bs)"
  by (induction bs arbitrary: r bs' w') (auto simp: time_time_def split: if_splits prod.splits)

lemma touch_blocks_miss: "touch_blocks bs t w = (False, bs', w') \<Longrightarrow> bs' = bs \<and> w' = w"
  by (induction bs arbitrary: bs' w') (auto simp: time_time_def split: if_splits prod.splits)

lemma min_scan_bound: "best < i \<Longrightarrow> min_scan key xs i best k < i + length xs"
proof (induction xs arbitrary: i best k)
  case Nil
  then show ?case by simp
next
  case (Cons x xs)
  have "min_scan key xs (Suc i) i (key x) < Suc i + length xs"
    by (rule Cons.IH) simp
  moreover have "min_scan key xs (Suc i) best k < Suc i + length xs"
    by (rule Cons.IH) (use Cons.prems in simp)
  ultimately show ?case by simp
qed

lemma max_scan_bound: "best < i \<Longrightarrow> max_scan key xs i best k < i + length xs"
proof (induction xs arbitrary: i best k)
  case Nil
  then show ?case by simp
next
  case (Cons x xs)
  have "max_scan key xs (Suc i) i (key x) < Suc i + length xs"
    by (rule Cons.IH) simp
  moreover have "max_scan key xs (Suc i) best k < Suc i + length xs"
    by (rule Cons.IH) (use Cons.prems in simp)
  ultimately show ?case by simp
qed

lemma min_index_bound: "xs \<noteq> [] \<Longrightarrow> min_index key xs < length xs"
  using min_scan_bound [of 0 1 key "tl xs" "key (hd xs)"]
  by (cases xs) (auto simp: min_index_def)

lemma max_index_bound: "xs \<noteq> [] \<Longrightarrow> max_index key xs < length xs"
  using max_scan_bound [of 0 1 key "tl xs" "key (hd xs)"]
  by (cases xs) (auto simp: max_index_def)

lemma length_remove_at: "i < length xs \<Longrightarrow> length (remove_at i xs) = length xs - 1"
  by (auto simp: remove_at_def)

lemma map_remove_at: "map f (remove_at i xs) = remove_at i (map f xs)"
  by (simp add: remove_at_def take_map drop_map)

lemma distinct_remove_at: "distinct xs \<Longrightarrow> distinct (remove_at i xs)"
  unfolding remove_at_def
  using set_take_disj_set_drop_if_distinct [of xs i "Suc i"]
  by simp

lemma set_remove_at: "set (remove_at i xs) \<subseteq> set xs"
  unfolding remove_at_def
  by (auto dest: in_set_takeD in_set_dropD)

lemma touch_blocks_tag_set:
  "touch_blocks bs t w = (r, bs', w') \<Longrightarrow> tag ` set bs' = tag ` set bs"
  using touch_blocks_tags [of bs t w r bs' w'] by (metis set_map)

lemma choose_victim_bound:
  "blocks s \<noteq> [] \<Longrightarrow> choose_victim s w = (Some i, w') \<Longrightarrow> i < length (blocks s)"
  by (auto simp: choose_victim_def min_index_bound max_index_bound random_draw_def nat_less_iff
           split: if_splits)

lemma choose_victim_known:
  "policy s \<in> {''LRU'', ''MRU'', ''LFU'', ''FIFO'', ''Random''} \<Longrightarrow> fst (choose_victim s w) \<noteq> None"
  by (auto simp: choose_victim_def random_draw_def)

lemma CacheSet_replace_fields:
  "CacheSet_replace s w = (s', w') \<Longrightarrow> capacity s' = capacity s \<and> policy s' = policy s"
  by (auto simp: CacheSet_replace_def split: if_splits prod.splits option.splits)

lemma CacheSet_replace_length:
  assumes "policy s \<in> {''LRU'', ''MRU'', ''LFU'', ''FIFO'', ''Random''}"
    and "blocks s \<noteq> []" and "CacheSet_replace s w = (s', w')"
  shows "length (blocks s') = length (blocks s) - 1"
proof -
  obtain v w1 where cv: "choose_victim s w = (v, w1)" by (cases "choose_victim s w")
  with choose_victim_known [OF assms(1), of w] obtain i where v: "v = Some i" by auto
  with cv assms(2) have "i < length (blocks s)" by (auto dest: choose_victim_bound)
  with assms(2,3) cv v show ?thesis
    by (auto simp: CacheSet_replace_def length_remove_at)
qed

lemma CacheSet_replace_blocks:
  "CacheSet_replace s w = (s', w') \<Longrightarrow>
     blocks s' = blocks s \<or> (\<exists>i. blocks s' = remove_at i (blocks s))"
  by (auto simp: CacheSet_replace_def split: if_splits prod.splits option.splits)

lemma CacheSet_replace_tags:
  assumes "CacheSet_replace s w = (s', w')"
  shows "tag ` set (blocks s') \<subseteq> tag ` set (blocks s)"
    and "distinct (map tag (blocks s)) \<Longrightarrow> distinct (map tag (blocks s'))"
proof -
  have "set (blocks s') \<subseteq> set (blocks s)"
    using CacheSet_replace_blocks [OF assms]
    by (elim disjE exE) (simp_all add: set_remove_at)
  then show "tag ` set (blocks s') \<subseteq> tag ` set (blocks s)"
    by (rule image_mono)
  from CacheSet_replace_blocks [OF assms]
  show "distinct (map tag (blocks s)) \<Longrightarrow> distinct (map tag (blocks s'))"
    by (auto simp: map_remove_at distinct_remove_at)
qed

lemma CacheSet_insert_fields:
  "CacheSet_insert s t w = (s', w') \<Longrightarrow> capacity s' = capacity s \<and> policy s' = policy s"
  by (auto simp: CacheSet_insert_def CacheBlock_init_def time_time_def
           dest: CacheSet_replace_fields split: if_splits prod.splits bool.splits)

lemma CacheSet_insert_resident:
  assumes "CacheSet_insert s t w = (s', w')"
  shows "t \<in> tag ` set (blocks s')"
proof -
  obtain r bs w1 where tb: "touch_blocks (blocks s) t w = (r, bs, w1)"
    by (cases "touch_blocks (blocks s) t w")
  show ?thesis
  proof (cases r)
    case True
    with tb assms have "blocks s' = bs" by (auto simp: CacheSet_insert_def)
    moreover have "t \<in> tag ` set (blocks s)" using touch_blocks_found [OF tb] True by simp
    ultimately show ?thesis using touch_blocks_tag_set [OF tb] by simp
  next
    case False
    with tb assms show ?thesis
      by (auto simp: CacheSet_insert_def CacheBlock_init_def time_time_def
               split: prod.splits if_splits)
  qed
qed

section \<open>The capacity bound of a Set\<close>

lemma CacheSet_access_frame:
  assumes "CacheSet_access s t w = (r, s', w')"
  shows "length (blocks s') = length (blocks s)" and "map tag (blocks s') = map tag (blocks s)"
    and "map insertion_time (blocks s') = map insertion_time (blocks s)"
    and "capacity s' = capacity s" and "policy s' = policy s"
  using assms
  by (auto simp: CacheSet_access_def split: prod.splits
           dest: touch_blocks_length touch_blocks_tags touch_blocks_insertion_time)

lemma CacheSet_insert_keeps_bound:
  assumes cap: "0 < capacity s"
    and pol: "policy s \<in> {''LRU'', ''MRU'', ''LFU'', ''FIFO'', ''Random''}"
    and len: "int (length (blocks s)) \<le> capacity s"
    and dis: "distinct (map tag (blocks s))"
    and ins: "CacheSet_insert s t w = (s', w')"
  shows "int (length (blocks s')) \<le> capacity s \<and> distinct (map tag (blocks s'))"
proof -
  obtain r bs w1 where tb: "touch_blocks (blocks s) t w = (r, bs, w1)"
    by (cases "touch_blocks (blocks s) t w")
  show ?thesis
  proof (cases r)
    case True
    with tb ins have "blocks s' = bs" by (auto simp: CacheSet_insert_def)
    with touch_blocks_length [OF tb] touch_blocks_tags [OF tb] len dis show ?thesis by simp
  next
    case False
    with touch_blocks_found [OF tb] have fresh: "t \<notin> tag ` set (blocks s)" by simp
    obtain s2 w2 where rep:
      "(if capacity s \<le> int (length (blocks s)) then CacheSet_replace s w1 else (s, w1)) = (s2, w2)"
      by (cases "if capacity s \<le> int (length (blocks s)) then CacheSet_replace s w1 else (s, w1)")
    obtain nb w3 where nb: "CacheBlock_init t w2 = (nb, w3)" by (cases "CacheBlock_init t w2")
    then have tag_nb: "tag nb = t" by (auto simp: CacheBlock_init_def time_time_def)
    from ins tb False rep nb have s': "blocks s' = blocks s2 @ [nb]"
      by (auto simp: CacheSet_insert_def)
    have room: "int (length (blocks s2)) < capacity s \<and> distinct (map tag (blocks s2))
                 \<and> tag ` set (blocks s2) \<subseteq> tag ` set (blocks s)"
    proof (cases "capacity s \<le> int (length (blocks s))")
      case True
      with rep have r: "CacheSet_replace s w1 = (s2, w2)" by simp
      from True cap have ne: "blocks s \<noteq> []" by auto
      from CacheSet_replace_length [OF pol ne r] ne len
      have "int (length (blocks s2)) < capacity s" by (cases "blocks s") auto
      with CacheSet_replace_tags [OF r] dis show ?thesis by simp
    next
      case False
      with rep dis show ?thesis by auto
    qed
    with fresh tag_nb s' show ?thesis by auto
  qed
qed

lemma run_set_ops_keeps_bound:
  assumes "0 < capacity s"
    and "policy s \<in> {''LRU'', ''MRU'', ''LFU'', ''FIFO'', ''Random''}"
    and "int (length (blocks s)) \<le> capacity s"
    and "distinct (map tag (blocks s))"
    and "run_set_ops ops s w = (s', w')"
  shows "int (length (blocks s')) \<le> capacity s \<and> distinct (map tag (blocks s'))
         \<and> capacity s' = capacity s"
  using assms
proof (induction ops s w rule: run_set_ops.induct)
  case (1 s w)
  then show ?case by simp
next
  case (2 t ops s w)
  obtain r s1 w1 where a: "CacheSet_access s t w = (r, s1, w1)"
    by (cases "CacheSet_access s t w")
  from CacheSet_access_frame [OF a] 2 a show ?case by (auto simp del: CacheSet_access_def)
next
  case (3 t ops s w)
  obtain s1 w1 where a: "CacheSet_insert s t w = (s1, w1)"
    by (cases "CacheSet_insert s t w")
  from CacheSet_insert_keeps_bound [OF "3.prems"(1-4) a] CacheSet_insert_fields [OF a] 3 a
  show ?case by auto
qed

text \<open>
  C4. A Set with positive capacity and one of the five policies, started empty and driven
  by any sequence of touch (\<^verbatim>\<open>access\<close>) and admit (\<^verbatim>\<open>insert\<close>) operations, never
  holds more blocks than its capacity, and no tag occurs twice among its blocks. The
  sequence is arbitrary, so this holds after every operation of a run.
\<close>

theorem set_capacity_invariant:
  assumes "0 < cap" and "pol \<in> {''LRU'', ''MRU'', ''LFU'', ''FIFO'', ''Random''}"
  shows "int (length (blocks (fst (run_set_ops ops (CacheSet_init cap pol) w)))) \<le> cap
         \<and> distinct (map tag (blocks (fst (run_set_ops ops (CacheSet_init cap pol) w))))"
proof -
  obtain s' w' where r: "run_set_ops ops (CacheSet_init cap pol) w = (s', w')"
    by (cases "run_set_ops ops (CacheSet_init cap pol) w")
  from run_set_ops_keeps_bound [OF _ _ _ _ r] assms r show ?thesis
    by (simp add: CacheSet_init_def)
qed

theorem set_capacity_invariant_witness:
  "length (blocks (fst (run_set_ops [Admit 1, Admit 2, Touch 1, Admit 3, Admit 2]
      (CacheSet_init 2 ''LRU'')
      \<lparr>clock = real, ticks = 0, random_source = int, draws = 0\<rparr>))) = 2
   \<and> map tag (blocks (fst (run_set_ops [Admit 1, Admit 2, Touch 1, Admit 3, Admit 2]
      (CacheSet_init 2 ''LRU'')
      \<lparr>clock = real, ticks = 0, random_source = int, draws = 0\<rparr>))) = [3, 2]"
  using set_capacity_invariant [of 2 "''LRU''" "[Admit 1, Admit 2, Touch 1, Admit 3, Admit 2]"
      "\<lparr>clock = real, ticks = 0, random_source = int, draws = 0\<rparr>"]
  by (simp add: CacheSet_init_def CacheSet_insert_def CacheSet_access_def CacheSet_replace_def
      choose_victim_def CacheBlock_init_def time_time_def min_index_def remove_at_def)

section \<open>FIFO eviction\<close>

text \<open>
  C5. A FIFO Set of capacity 2, started empty: admit A, admit B, touch A, admit C (three
  different tags). The touch leaves every \<open>insertion_time\<close> as it was, so A is still the
  block inserted first when C arrives: A is evicted, B and C stay. The clock is assumed
  not to run backwards.
\<close>

theorem fifo_ignores_touch:
  assumes "a \<noteq> b" and "a \<noteq> c" and "b \<noteq> c" and "mono (clock w)"
  shows "map tag (blocks (fst (run_set_ops [Admit a, Admit b, Touch a, Admit c]
                                 (CacheSet_init 2 ''FIFO'') w))) = [b, c]
         \<and> map insertion_time (blocks (fst (snd (CacheSet_access s t w0))))
             = map insertion_time (blocks s)"
proof -
  have "clock w (Suc (ticks w)) \<le> clock w (Suc (Suc (Suc (ticks w))))"
    using assms(4) by (simp add: mono_def)
  then have "map tag (blocks (fst (run_set_ops [Admit a, Admit b, Touch a, Admit c]
                                 (CacheSet_init 2 ''FIFO'') w))) = [b, c]"
    using assms(1-3)
    by (simp add: CacheSet_init_def CacheSet_insert_def CacheSet_access_def CacheSet_replace_def
        choose_victim_def CacheBlock_init_def time_time_def min_index_def remove_at_def)
  moreover obtain r s' w' where "CacheSet_access s t w0 = (r, s', w')"
    by (cases "CacheSet_access s t w0")
  ultimately show ?thesis using CacheSet_access_frame(3) by fastforce
qed

theorem fifo_ignores_touch_witness:
  "map tag (blocks (fst (run_set_ops [Admit 10, Admit 20, Touch 10, Admit 30]
      (CacheSet_init 2 ''FIFO'')
      \<lparr>clock = real, ticks = 0, random_source = int, draws = 0\<rparr>))) = [20, 30]"
proof -
  have m: "mono (clock \<lparr>clock = real, ticks = 0, random_source = int, draws = 0\<rparr>)"
    by (simp add: mono_def)
  show ?thesis
    using fifo_ignores_touch [of 10 20 30, OF _ _ _ m] by simp
qed

section \<open>Probing and warming one level\<close>

lemma get_index_and_tag_ok:
  "block_size l \<noteq> 0 \<Longrightarrow> num_sets l \<noteq> 0 \<Longrightarrow>
   get_index_and_tag l a =
     Inr ((a div block_size l) mod num_sets l, (a div block_size l) div num_sets l)"
  by (simp add: get_index_and_tag_def)

lemma get_index_and_tag_geometry:
  "block_size l' = block_size l \<Longrightarrow> num_sets l' = num_sets l \<Longrightarrow>
   get_index_and_tag l' a = get_index_and_tag l a"
  by (simp add: get_index_and_tag_def)

lemma CacheLevel_access_frame:
  assumes "CacheLevel_access l a w = Inr (r, l', w')"
  shows "block_size l' = block_size l" and "num_sets l' = num_sets l"
    and "name l' = name l" and "access_time l' = access_time l"
    and "associativity l' = associativity l" and "level_policy l' = level_policy l"
    and "size_bytes l' = size_bytes l"
  using assms
  by (auto simp: CacheLevel_access_def split: sum.splits prod.splits option.splits bool.splits)

lemma CacheLevel_insert_frame:
  assumes "CacheLevel_insert l a w = Inr (l', w')"
  shows "block_size l' = block_size l" and "num_sets l' = num_sets l"
    and "name l' = name l" and "access_time l' = access_time l"
    and "associativity l' = associativity l" and "level_policy l' = level_policy l"
    and "size_bytes l' = size_bytes l"
    and "hits l' = hits l" and "misses l' = misses l"
  using assms
  by (auto simp: CacheLevel_insert_def split: sum.splits prod.splits)

lemma CacheLevel_insert_total:
  "block_size l \<noteq> 0 \<Longrightarrow> num_sets l \<noteq> 0 \<Longrightarrow> \<exists>l' w'. CacheLevel_insert l a w = Inr (l', w')"
  by (simp add: CacheLevel_insert_def get_index_and_tag_def split: prod.splits)

lemma CacheLevel_access_absent:
  "block_size l \<noteq> 0 \<Longrightarrow> num_sets l \<noteq> 0 \<Longrightarrow> \<not> reaches_set l a \<Longrightarrow>
   CacheLevel_access l a w = Inr (False, l, w)"
  by (simp add: CacheLevel_access_def reaches_set_def get_index_and_tag_def)

lemma CacheLevel_access_present:
  assumes "reaches_set l a"
  shows "\<exists>r l' w'. CacheLevel_access l a w = Inr (r, l', w')
           \<and> hits l' = hits l + (if r then 1 else 0)
           \<and> misses l' = misses l + (if r then 0 else 1)"
  using assms
  by (auto simp: CacheLevel_access_def reaches_set_def
           split: sum.splits prod.splits option.splits bool.splits)

lemma CacheLevel_access_total:
  "block_size l \<noteq> 0 \<Longrightarrow> num_sets l \<noteq> 0 \<Longrightarrow> \<exists>r l' w'. CacheLevel_access l a w = Inr (r, l', w')"
  using CacheLevel_access_absent [of l a w] CacheLevel_access_present [of l a w]
  by blast

lemma CacheLevel_access_counts:
  assumes "CacheLevel_access l a w = Inr (r, l', w')"
  shows "hits l' + misses l' = hits l + misses l + (if reaches_set l a then 1 else 0)"
  using assms
  by (auto simp: CacheLevel_access_def reaches_set_def
           split: sum.splits prod.splits option.splits bool.splits)

lemma run_level_ops_counts:
  "run_level_ops ops l w = Inr (n, l', w') \<Longrightarrow>
   hits l' + misses l' = hits l + misses l + int n"
proof (induction ops l w arbitrary: n l' w' rule: run_level_ops.induct)
  case (1 l w)
  then show ?case by simp
next
  case (2 a ops l w)
  from "2.prems" obtain r l1 w1 where a: "CacheLevel_access l a w = Inr (r, l1, w1)"
    by (auto split: sum.splits)
  with "2.prems" obtain m where m: "run_level_ops ops l1 w1 = Inr (m, l', w')"
    and n: "n = (if reaches_set l a then Suc m else m)"
    by (auto split: sum.splits)
  from "2.IH" [OF a refl refl m] CacheLevel_access_counts [OF a] n show ?case by auto
next
  case (3 a ops l w)
  from "3.prems" obtain l1 w1 where a: "CacheLevel_insert l a w = Inr (l1, w1)"
    by (auto split: sum.splits)
  with "3.prems" have m: "run_level_ops ops l1 w1 = Inr (n, l', w')" by simp
  from "3.IH" [OF a refl m] CacheLevel_insert_frame(8,9) [OF a] show ?case by simp
qed

lemma run_level_ops_total:
  "block_size l \<noteq> 0 \<Longrightarrow> num_sets l \<noteq> 0 \<Longrightarrow> \<exists>n l' w'. run_level_ops ops l w = Inr (n, l', w')"
proof (induction ops l w rule: run_level_ops.induct)
  case (1 l w)
  then show ?case by simp
next
  case (2 a ops l w)
  from CacheLevel_access_total [OF "2.prems", of a w]
  obtain r l1 w1 where a: "CacheLevel_access l a w = Inr (r, l1, w1)" by blast
  from CacheLevel_access_frame(1,2) [OF a] "2.prems"
  have "block_size l1 \<noteq> 0" "num_sets l1 \<noteq> 0" by simp_all
  from "2.IH" [OF a refl refl this] a show ?case by auto
next
  case (3 a ops l w)
  from CacheLevel_insert_total [OF "3.prems", of a w]
  obtain l1 w1 where a: "CacheLevel_insert l a w = Inr (l1, w1)" by blast
  from CacheLevel_insert_frame(1,2) [OF a] "3.prems"
  have "block_size l1 \<noteq> 0" "num_sets l1 \<noteq> 0" by simp_all
  from "3.IH" [OF a refl this] a show ?case by auto
qed

text \<open>
  C3. A probe (\<^verbatim>\<open>CacheLevel.access\<close>) whose address falls on an index with no Set
  returns a miss and leaves the level, and so both counters, as they were. A probe that
  finds a Set adds one to exactly one counter: to \<open>hits\<close> when it returns true, to
  \<open>misses\<close> when it returns false. Hence over any sequence of probes and warm-ups of a
  level, \<open>hits + misses\<close> grows by the number of probes that reached an existing Set.
\<close>

theorem counter_conservation:
  assumes "get_index_and_tag l a = Inr (index, t)"
  shows "(sets l index = None \<longrightarrow> CacheLevel_access l a w = Inr (False, l, w))
       \<and> (sets l index \<noteq> None \<longrightarrow>
            (\<exists>r l' w'. CacheLevel_access l a w = Inr (r, l', w')
               \<and> hits l' = hits l + (if r then 1 else 0)
               \<and> misses l' = misses l + (if r then 0 else 1)))
       \<and> (\<exists>n l' w'. run_level_ops ops l w = Inr (n, l', w')
               \<and> hits l' + misses l' = hits l + misses l + int n)"
proof -
  from assms have ok: "block_size l \<noteq> 0" "num_sets l \<noteq> 0"
    by (auto simp: get_index_and_tag_def split: if_splits)
  from assms have rs: "reaches_set l a = (sets l index \<noteq> None)"
    by (simp add: reaches_set_def)
  from run_level_ops_total [OF ok, of ops w]
  obtain n l' w' where r: "run_level_ops ops l w = Inr (n, l', w')" by blast
  from run_level_ops_counts [OF r] r
  have "\<exists>n l' w'. run_level_ops ops l w = Inr (n, l', w')
               \<and> hits l' + misses l' = hits l + misses l + int n" by blast
  with CacheLevel_access_absent [OF ok, of a w] CacheLevel_access_present [of l a w] rs
  show ?thesis by blast
qed

theorem counter_conservation_witness:
  "get_index_and_tag
     \<lparr>name = ''L1 Cache'', size_bytes = 64, block_size = 64, associativity = 1,
      access_time = 1, level_policy = ''LRU'', num_sets = 1, sets = Map.empty,
      hits = 0, misses = 0\<rparr> 64 = Inr (0, 1)
   \<and> (\<exists>l' w'. run_level_ops [Probe 0, Warm 0, Probe 0, Probe 64]
         \<lparr>name = ''L1 Cache'', size_bytes = 64, block_size = 64, associativity = 1,
          access_time = 1, level_policy = ''LRU'', num_sets = 1, sets = Map.empty,
          hits = 0, misses = 0\<rparr>
         \<lparr>clock = real, ticks = 0, random_source = int, draws = 0\<rparr> = Inr (2, l', w')
        \<and> hits l' = 1 \<and> misses l' = 1)"
proof -
  have g: "get_index_and_tag
     \<lparr>name = ''L1 Cache'', size_bytes = 64, block_size = 64, associativity = 1,
      access_time = 1, level_policy = ''LRU'', num_sets = 1, sets = Map.empty,
      hits = 0, misses = 0\<rparr> 64 = Inr (0, 1)"
    by (simp add: get_index_and_tag_def)
  have "\<exists>l' w'. run_level_ops [Probe 0, Warm 0, Probe 0, Probe 64]
         \<lparr>name = ''L1 Cache'', size_bytes = 64, block_size = 64, associativity = 1,
          access_time = 1, level_policy = ''LRU'', num_sets = 1, sets = Map.empty,
          hits = 0, misses = 0\<rparr>
         \<lparr>clock = real, ticks = 0, random_source = int, draws = 0\<rparr> = Inr (2, l', w')
        \<and> hits l' = 1 \<and> misses l' = 1"
    using counter_conservation [OF g, of "\<lparr>clock = real, ticks = 0, random_source = int, draws = 0\<rparr>"
        "[Probe 0, Warm 0, Probe 0, Probe 64]"]
    by (simp add: CacheLevel_access_def CacheLevel_insert_def get_index_and_tag_def
        reaches_set_def CacheSet_init_def CacheSet_insert_def CacheSet_access_def
        CacheBlock_init_def time_time_def)
  with g show ?thesis by blast
qed

section \<open>The probing loop\<close>

lemma CacheLevel_access_miss_world:
  "CacheLevel_access l a w = Inr (False, l', w') \<Longrightarrow> w' = w"
  by (auto simp: CacheLevel_access_def CacheSet_access_def
           split: sum.splits prod.splits option.splits bool.splits dest: touch_blocks_miss)

lemma CacheLevel_access_resident_tags:
  assumes "CacheLevel_access l a w = Inr (r, l', w')"
  shows "resident_tags l' k = resident_tags l k"
  using assms
  by (auto simp: CacheLevel_access_def CacheSet_access_def resident_tags_def
           split: sum.splits prod.splits option.splits bool.splits dest: touch_blocks_tags)

lemma probe_after_insert:
  assumes "CacheLevel_insert l a w = Inr (l', w')"
  shows "probe_result l' a w'' = Inr True"
proof -
  from assms obtain index t where g: "get_index_and_tag l a = Inr (index, t)"
    by (auto simp: CacheLevel_insert_def split: sum.splits)
  define s0 where "s0 = (case sets l index of
                     None \<Rightarrow> CacheSet_init (associativity l) (level_policy l)
                   | Some s \<Rightarrow> s)"
  obtain s' w1 where i: "CacheSet_insert s0 t w = (s', w1)" by (cases "CacheSet_insert s0 t w")
  with assms g have l': "l' = l\<lparr>sets := (sets l)(index \<mapsto> s')\<rparr>"
    by (simp add: CacheLevel_insert_def s0_def)
  then have g': "get_index_and_tag l' a = Inr (index, t)"
    using g get_index_and_tag_geometry [of l' l a] by simp
  obtain r bs w2 where tb: "touch_blocks (blocks s') t w'' = (r, bs, w2)"
    by (cases "touch_blocks (blocks s') t w''")
  from touch_blocks_found [OF tb] CacheSet_insert_resident [OF i] have "r" by simp
  with tb g' l' show ?thesis
    by (simp add: probe_result_def CacheLevel_access_def CacheSet_access_def)
qed

lemma probe_levels_Cons_Some:
  assumes "probe_levels (l # ls) a w = Inr (Some i, t, ls', w1)"
  shows "(i = 0 \<and> (\<exists>l'. CacheLevel_access l a w = Inr (True, l', w1) \<and> ls' = l' # ls))
       \<or> (\<exists>p l' t0 ls0. i = Suc p \<and> CacheLevel_access l a w = Inr (False, l', w)
             \<and> probe_levels ls a w = Inr (Some p, t0, ls0, w1) \<and> ls' = l' # ls0)"
proof (cases "CacheLevel_access l a w")
  case (Inl e)
  with assms show ?thesis by simp
next
  case (Inr x)
  obtain r l' w' where x: "x = (r, l', w')" by (cases x)
  show ?thesis
  proof (cases r)
    case True
    with assms Inr x show ?thesis by auto
  next
    case False
    with Inr x have w': "w' = w" by (auto dest: CacheLevel_access_miss_world)
    from assms Inr x False w' show ?thesis by (auto split: sum.splits)
  qed
qed

lemma probe_levels_hit:
  "probe_levels ls a w = Inr (Some i, t, ls', w1) \<Longrightarrow>
     i < length ls \<and> length ls' = length ls
     \<and> (\<forall>j<i. CacheLevel_access (ls ! j) a w = Inr (False, ls' ! j, w))
     \<and> CacheLevel_access (ls ! i) a w = Inr (True, ls' ! i, w1)
     \<and> (\<forall>j>i. ls' ! j = ls ! j)"
proof (induction ls arbitrary: i t ls')
  case Nil
  then show ?case by simp
next
  case (Cons l ls)
  from probe_levels_Cons_Some [OF Cons.prems] show ?case
  proof (elim disjE conjE exE)
    fix l' assume "i = 0" "CacheLevel_access l a w = Inr (True, l', w1)" "ls' = l' # ls"
    then show ?thesis by (auto simp: nth_Cons split: nat.splits)
  next
    fix p l' t0 ls0
    assume i: "i = Suc p" and m: "CacheLevel_access l a w = Inr (False, l', w)"
      and rec: "probe_levels ls a w = Inr (Some p, t0, ls0, w1)" and ls': "ls' = l' # ls0"
    from Cons.IH [OF rec] i m ls' show ?thesis
      by (auto simp: nth_Cons less_Suc_eq_0_disj split: nat.splits)
  qed
qed

section \<open>The warm-up loops\<close>

lemma CacheLevel_access_ok:
  "CacheLevel_access l a w = Inr x \<Longrightarrow> level_ok l"
  by (auto simp: CacheLevel_access_def get_index_and_tag_def level_ok_def
           split: sum.splits if_splits)

lemma CacheLevel_access_keeps_ok:
  "CacheLevel_access l a w = Inr (r, l', w') \<Longrightarrow> level_ok l'"
  using CacheLevel_access_ok [of l a w] CacheLevel_access_frame(1,2) [of l a w r l' w']
  by (simp add: level_ok_def)

lemma CacheLevel_insert_keeps_ok:
  "CacheLevel_insert l a w = Inr (l', w') \<Longrightarrow> level_ok l'"
  using CacheLevel_insert_frame(1,2) [of l a w l' w']
  by (auto simp: level_ok_def CacheLevel_insert_def get_index_and_tag_def
           split: sum.splits if_splits)

lemma CacheLevel_insert_ok_total:
  "level_ok l \<Longrightarrow> \<exists>l' w'. CacheLevel_insert l a w = Inr (l', w')"
  by (simp add: level_ok_def CacheLevel_insert_total)

lemma CacheLevel_access_ok_total:
  "level_ok l \<Longrightarrow> \<exists>r l' w'. CacheLevel_access l a w = Inr (r, l', w')"
  by (simp add: level_ok_def CacheLevel_access_total)

lemma insert_prefix_warm:
  assumes "i \<le> length ls" and "\<forall>j<i. level_ok (ls ! j)"
  shows "\<exists>ls' w'. insert_prefix i ls a w = Inr (ls', w') \<and> length ls' = length ls
           \<and> (\<forall>j<i. \<forall>w''. probe_result (ls' ! j) a w'' = Inr True)
           \<and> (\<forall>j\<ge>i. ls' ! j = ls ! j)"
  using assms
proof (induction i ls a w rule: insert_prefix.induct)
  case (1 ls address w)
  then show ?case by simp
next
  case (2 n address w)
  then show ?case by simp
next
  case (3 n l ls address w)
  from "3.prems" have "level_ok l" by auto
  from CacheLevel_insert_ok_total [OF this, of address w]
  obtain l' w' where ins: "CacheLevel_insert l address w = Inr (l', w')" by blast
  from "3.prems" have "n \<le> length ls" "\<forall>j<n. level_ok (ls ! j)" by auto
  from "3.IH" [OF ins refl this]
  obtain ls' w'' where rec: "insert_prefix n ls address w' = Inr (ls', w'')"
    and len: "length ls' = length ls"
    and hit: "\<forall>j<n. \<forall>w''. probe_result (ls' ! j) address w'' = Inr True"
    and rest: "\<forall>j\<ge>n. ls' ! j = ls ! j" by blast
  from ins rec have "insert_prefix (Suc n) (l # ls) address w = Inr (l' # ls', w'')" by simp
  moreover from len have "length (l' # ls') = length (l # ls)" by simp
  moreover from hit probe_after_insert [OF ins]
  have "\<forall>j<Suc n. \<forall>w''. probe_result ((l' # ls') ! j) address w'' = Inr True"
    by (auto simp: nth_Cons split: nat.splits)
  moreover from rest have "\<forall>j\<ge>Suc n. (l' # ls') ! j = (l # ls) ! j"
    by (auto simp: nth_Cons split: nat.splits)
  ultimately show ?case by blast
qed

lemma insert_all_warm:
  assumes "list_all level_ok ls"
  shows "\<exists>ls' w'. insert_all ls a w = Inr (ls', w') \<and> length ls' = length ls
           \<and> list_all level_ok ls'
           \<and> (\<forall>j<length ls. \<forall>w''. probe_result (ls' ! j) a w'' = Inr True)
           \<and> map hits ls' = map hits ls \<and> map misses ls' = map misses ls"
  using assms
proof (induction ls arbitrary: w)
  case Nil
  then show ?case by simp
next
  case (Cons l ls)
  from Cons.prems have "level_ok l" by simp
  from CacheLevel_insert_ok_total [OF this, of a w]
  obtain l' w' where ins: "CacheLevel_insert l a w = Inr (l', w')" by blast
  from Cons.prems have "list_all level_ok ls" by simp
  from Cons.IH [OF this, of w']
  obtain ls' w'' where rec: "insert_all ls a w' = Inr (ls', w'')"
    and len: "length ls' = length ls" and ok: "list_all level_ok ls'"
    and hit: "\<forall>j<length ls. \<forall>w''. probe_result (ls' ! j) a w'' = Inr True"
    and cnt: "map hits ls' = map hits ls" "map misses ls' = map misses ls" by blast
  from ins rec have "insert_all (l # ls) a w = Inr (l' # ls', w'')" by simp
  moreover from len have "length (l' # ls') = length (l # ls)" by simp
  moreover from ok CacheLevel_insert_keeps_ok [OF ins] have "list_all level_ok (l' # ls')" by simp
  moreover from hit probe_after_insert [OF ins]
  have "\<forall>j<length (l # ls). \<forall>w''. probe_result ((l' # ls') ! j) a w'' = Inr True"
    by (auto simp: nth_Cons split: nat.splits)
  moreover from cnt CacheLevel_insert_frame(8,9) [OF ins]
  have "map hits (l' # ls') = map hits (l # ls)" "map misses (l' # ls') = map misses (l # ls)"
    by simp_all
  ultimately show ?case by blast
qed

lemma probe_levels_Cons_None:
  assumes "probe_levels (l # ls) a w = Inr (None, t, ls', w1)"
  shows "\<exists>l' t0 ls0. CacheLevel_access l a w = Inr (False, l', w)
             \<and> probe_levels ls a w = Inr (None, t0, ls0, w1) \<and> ls' = l' # ls0
             \<and> t = access_time l + t0"
proof (cases "CacheLevel_access l a w")
  case (Inl e)
  with assms show ?thesis by simp
next
  case (Inr x)
  obtain r l' w' where x: "x = (r, l', w')" by (cases x)
  show ?thesis
  proof (cases r)
    case True
    with assms Inr x show ?thesis by auto
  next
    case False
    with Inr x have w': "w' = w" by (auto dest: CacheLevel_access_miss_world)
    from assms Inr x False w' show ?thesis by (auto split: sum.splits)
  qed
qed

lemma probe_levels_miss:
  "probe_levels ls a w = Inr (None, t, ls', w1) \<Longrightarrow>
     w1 = w \<and> length ls' = length ls \<and> list_all level_ok ls'
     \<and> (\<forall>j<length ls. CacheLevel_access (ls ! j) a w = Inr (False, ls' ! j, w))"
proof (induction ls arbitrary: t ls')
  case Nil
  then show ?case by simp
next
  case (Cons l ls)
  from probe_levels_Cons_None [OF Cons.prems]
  obtain l' t0 ls0 where m: "CacheLevel_access l a w = Inr (False, l', w)"
    and rec: "probe_levels ls a w = Inr (None, t0, ls0, w1)" and ls': "ls' = l' # ls0"
    by blast
  from Cons.IH [OF rec] m ls' CacheLevel_access_keeps_ok [OF m] show ?case
    by (auto simp: nth_Cons split: nat.splits)
qed

section \<open>Resolution by a cache level\<close>

text \<open>
  C1. When the probing loop of \<^verbatim>\<open>access_memory\<close> finds its first hit at position \<open>i\<close>
  (in particular at a position \<open>i > 0\<close>), the call returns the name of level \<open>i\<close>, and
  afterwards a probe of any level \<open>j < i\<close> for the same address hits, whatever the clock
  and the random source. Level \<open>i\<close> is left exactly as its own hitting probe left it: the
  warm-up does not touch it, and the tags resident at each of its indices are those
  from before the call, so no block was created there.
\<close>

theorem inclusion_after_hit:
  assumes "resolving_position h a w = Inr (Some i)"
  shows "\<exists>r h' w'. access_memory h a w = Inr (r, h', w')
           \<and> snd r = name (levels h ! i)
           \<and> (\<forall>j<i. \<forall>w''. probe_result (levels h' ! j) a w'' = Inr True)
           \<and> (\<exists>w1. CacheLevel_access (levels h ! i) a w = Inr (True, levels h' ! i, w1))
           \<and> (\<forall>k. resident_tags (levels h' ! i) k = resident_tags (levels h ! i) k)"
proof -
  from assms obtain t ls w1 where p: "probe_levels (levels h) a w = Inr (Some i, t, ls, w1)"
    by (auto simp: resolving_position_def split: sum.splits)
  from probe_levels_hit [OF p]
  have i: "i < length (levels h)" and len: "length ls = length (levels h)"
    and before: "\<forall>j<i. CacheLevel_access (levels h ! j) a w = Inr (False, ls ! j, w)"
    and at: "CacheLevel_access (levels h ! i) a w = Inr (True, ls ! i, w1)"
    by simp_all
  from before have ok: "\<forall>j<i. level_ok (ls ! j)"
    by (auto dest: CacheLevel_access_keeps_ok)
  from i len have "i \<le> length ls" by simp
  from insert_prefix_warm [OF this ok, of a w1]
  obtain ls' w2 where ins: "insert_prefix i ls a w1 = Inr (ls', w2)"
    and hit: "\<forall>j<i. \<forall>w''. probe_result (ls' ! j) a w'' = Inr True"
    and rest: "\<forall>j\<ge>i. ls' ! j = ls ! j" by blast
  from rest have same: "ls' ! i = ls ! i" by simp
  from p ins have "access_memory h a w = Inr ((t, name (ls ! i)), h\<lparr>levels := ls'\<rparr>, w2)"
    by (simp add: access_memory_def)
  moreover have "name (ls ! i) = name (levels h ! i)"
    using CacheLevel_access_frame(3) [OF at] .
  moreover have "\<forall>k. resident_tags (ls ! i) k = resident_tags (levels h ! i) k"
    using CacheLevel_access_resident_tags [OF at] by simp
  ultimately show ?thesis using hit at same by auto
qed

theorem inclusion_after_hit_witness:
  "(let h = \<lparr>levels =
              [\<lparr>name = ''L1 Cache'', size_bytes = 64, block_size = 64, associativity = 1,
                access_time = 1, level_policy = ''LRU'', num_sets = 1, sets = Map.empty,
                hits = 0, misses = 0\<rparr>,
               \<lparr>name = ''L2 Cache'', size_bytes = 128, block_size = 64, associativity = 2,
                access_time = 5, level_policy = ''LRU'', num_sets = 1,
                sets = [0 \<mapsto> \<lparr>capacity = 2,
                               blocks = [\<lparr>tag = 0, last_access = 0, insertion_time = 0,
                                          access_count = 1\<rparr>],
                               policy = ''LRU''\<rparr>],
                hits = 0, misses = 0\<rparr>],
            disk_level =
              \<lparr>name = ''Secondary Memory (Disk)'', size_bytes = 1024, block_size = 64,
               associativity = 1, access_time = 100, level_policy = ''FIFO'', num_sets = 16,
               sets = Map.empty, hits = 0, misses = 0\<rparr>\<rparr>;
        w = \<lparr>clock = real, ticks = 0, random_source = int, draws = 0\<rparr>
    in resolving_position h 0 w = Inr (Some 1)
       \<and> (\<exists>h' w'. access_memory h 0 w = Inr ((6, ''L2 Cache''), h', w')
             \<and> probe_result (levels h' ! 0) 0 w' = Inr True
             \<and> hits (levels h' ! 1) = 1))"
proof -
  let ?h = "\<lparr>levels =
              [\<lparr>name = ''L1 Cache'', size_bytes = 64, block_size = 64, associativity = 1,
                access_time = 1, level_policy = ''LRU'', num_sets = 1, sets = Map.empty,
                hits = 0, misses = 0\<rparr>,
               \<lparr>name = ''L2 Cache'', size_bytes = 128, block_size = 64, associativity = 2,
                access_time = 5, level_policy = ''LRU'', num_sets = 1,
                sets = [0 \<mapsto> \<lparr>capacity = 2,
                               blocks = [\<lparr>tag = 0, last_access = 0, insertion_time = 0,
                                          access_count = 1\<rparr>],
                               policy = ''LRU''\<rparr>],
                hits = 0, misses = 0\<rparr>],
            disk_level =
              \<lparr>name = ''Secondary Memory (Disk)'', size_bytes = 1024, block_size = 64,
               associativity = 1, access_time = 100, level_policy = ''FIFO'', num_sets = 16,
               sets = Map.empty, hits = 0, misses = 0\<rparr>\<rparr>"
  let ?w = "\<lparr>clock = real, ticks = 0, random_source = int, draws = 0\<rparr>"
  have pos: "resolving_position ?h 0 ?w = Inr (Some 1)"
    by (simp add: resolving_position_def CacheLevel_access_def get_index_and_tag_def
        CacheSet_access_def time_time_def)
  from inclusion_after_hit [OF pos]
  obtain r h' w' where am: "access_memory ?h 0 ?w = Inr (r, h', w')"
    and nm: "snd r = name (levels ?h ! 1)"
    and hit: "\<forall>j<1. \<forall>w''. probe_result (levels h' ! j) 0 w'' = Inr True"
    and at: "\<exists>w1. CacheLevel_access (levels ?h ! 1) 0 ?w = Inr (True, levels h' ! 1, w1)"
    by blast
  from am have t: "fst r = 6"
    by (auto simp: access_memory_def CacheLevel_access_def get_index_and_tag_def
        CacheSet_access_def time_time_def split: sum.splits prod.splits)
  from at obtain w1 where e: "CacheLevel_access (levels ?h ! 1) 0 ?w = Inr (True, levels h' ! 1, w1)"
    by blast
  have "(Inr (hits (levels h' ! 1)) :: error + int)
          = map_sum id (\<lambda>x. hits (fst (snd x))) (CacheLevel_access (levels ?h ! 1) 0 ?w)"
    by (simp only: e map_sum.simps fst_conv snd_conv)
  also have "\<dots> = Inr 1"
    by (simp add: CacheLevel_access_def get_index_and_tag_def
        CacheSet_access_def time_time_def)
  finally have "hits (levels h' ! 1) = 1" by simp
  with pos am nm hit t show ?thesis
    by (cases r) (simp add: Let_def)
qed

section \<open>Resolution by the terminal store\<close>

text \<open>
  C2. When no level of the hierarchy hits, \<^verbatim>\<open>access_memory\<close> resolves through the
  terminal store: it returns the name \<^verbatim>\<open>Disk\<close>, the store's \<open>hits\<close> counter is one
  higher than before and its \<open>misses\<close> counter is as before, the address is inserted into
  the store and into every level, and afterwards a probe of any level or of the store
  for the address hits, whatever the clock and the random source.
\<close>

theorem full_warm_up_after_terminal:
  assumes "resolving_position h a w = Inr None" and "level_ok (disk_level h)"
  shows "\<exists>t h' w'. access_memory h a w = Inr ((t, ''Disk''), h', w')
           \<and> hits (disk_level h') = hits (disk_level h) + 1
           \<and> misses (disk_level h') = misses (disk_level h)
           \<and> (\<exists>w1 w2. CacheLevel_insert ((disk_level h)\<lparr>hits := hits (disk_level h) + 1\<rparr>) a w1
                          = Inr (disk_level h', w2))
           \<and> length (levels h') = length (levels h)
           \<and> (\<forall>j<length (levels h'). \<forall>w''. probe_result (levels h' ! j) a w'' = Inr True)
           \<and> (\<forall>w''. probe_result (disk_level h') a w'' = Inr True)"
proof -
  from assms(1) obtain t ls w1 where p: "probe_levels (levels h) a w = Inr (None, t, ls, w1)"
    by (auto simp: resolving_position_def split: sum.splits)
  from probe_levels_miss [OF p]
  have len: "length ls = length (levels h)" and ok: "list_all level_ok ls" by simp_all
  let ?d = "(disk_level h)\<lparr>hits := hits (disk_level h) + 1\<rparr>"
  from assms(2) have "level_ok ?d" by (simp add: level_ok_def)
  from CacheLevel_insert_ok_total [OF this, of a w1]
  obtain d w2 where insd: "CacheLevel_insert ?d a w1 = Inr (d, w2)" by blast
  from insert_all_warm [OF ok, of a w2]
  obtain ls' w3 where insl: "insert_all ls a w2 = Inr (ls', w3)"
    and len': "length ls' = length ls"
    and hit: "\<forall>j<length ls. \<forall>w''. probe_result (ls' ! j) a w'' = Inr True" by blast
  from p insd insl
  have "access_memory h a w
          = Inr ((t + access_time (disk_level h), ''Disk''), \<lparr>levels = ls', disk_level = d\<rparr>, w3)"
    by (simp add: access_memory_def)
  moreover from CacheLevel_insert_frame(8,9) [OF insd]
  have "hits d = hits (disk_level h) + 1" "misses d = misses (disk_level h)" by simp_all
  moreover have "\<forall>w''. probe_result d a w'' = Inr True"
    using probe_after_insert [OF insd] by simp
  ultimately show ?thesis using insd len len' hit by auto
qed

theorem full_warm_up_after_terminal_witness:
  "(let h = \<lparr>levels =
              [\<lparr>name = ''L1 Cache'', size_bytes = 64, block_size = 64, associativity = 1,
                access_time = 1, level_policy = ''LRU'', num_sets = 1, sets = Map.empty,
                hits = 0, misses = 0\<rparr>,
               \<lparr>name = ''Main Memory (RAM)'', size_bytes = 1024, block_size = 64,
                associativity = 8, access_time = 100, level_policy = ''LRU'', num_sets = 2,
                sets = Map.empty, hits = 0, misses = 0\<rparr>],
            disk_level =
              \<lparr>name = ''Secondary Memory (Disk)'', size_bytes = 1024, block_size = 64,
               associativity = 1, access_time = 1000, level_policy = ''FIFO'', num_sets = 16,
               sets = Map.empty, hits = 0, misses = 0\<rparr>\<rparr>;
        w = \<lparr>clock = real, ticks = 0, random_source = int, draws = 0\<rparr>
    in resolving_position h 128 w = Inr None \<and> level_ok (disk_level h)
       \<and> (\<exists>h' w'. access_memory h 128 w = Inr ((1101, ''Disk''), h', w')
             \<and> hits (disk_level h') = 1
             \<and> probe_result (levels h' ! 0) 128 w' = Inr True
             \<and> probe_result (levels h' ! 1) 128 w' = Inr True
             \<and> probe_result (disk_level h') 128 w' = Inr True))"
proof -
  let ?h = "\<lparr>levels =
              [\<lparr>name = ''L1 Cache'', size_bytes = 64, block_size = 64, associativity = 1,
                access_time = 1, level_policy = ''LRU'', num_sets = 1, sets = Map.empty,
                hits = 0, misses = 0\<rparr>,
               \<lparr>name = ''Main Memory (RAM)'', size_bytes = 1024, block_size = 64,
                associativity = 8, access_time = 100, level_policy = ''LRU'', num_sets = 2,
                sets = Map.empty, hits = 0, misses = 0\<rparr>],
            disk_level =
              \<lparr>name = ''Secondary Memory (Disk)'', size_bytes = 1024, block_size = 64,
               associativity = 1, access_time = 1000, level_policy = ''FIFO'', num_sets = 16,
               sets = Map.empty, hits = 0, misses = 0\<rparr>\<rparr>"
  let ?w = "\<lparr>clock = real, ticks = 0, random_source = int, draws = 0\<rparr>"
  have pos: "resolving_position ?h 128 ?w = Inr None"
    by (simp add: resolving_position_def CacheLevel_access_def get_index_and_tag_def)
  have ok: "level_ok (disk_level ?h)" by (simp add: level_ok_def)
  from full_warm_up_after_terminal [OF pos ok]
  obtain t h' w' where am: "access_memory ?h 128 ?w = Inr ((t, ''Disk''), h', w')"
    and hd: "hits (disk_level h') = hits (disk_level ?h) + 1"
    and len: "length (levels h') = length (levels ?h)"
    and hit: "\<forall>j<length (levels h'). \<forall>w''. probe_result (levels h' ! j) 128 w'' = Inr True"
    and hitd: "\<forall>w''. probe_result (disk_level h') 128 w'' = Inr True"
    by blast
  from am have t: "t = 1101"
    by (auto simp: access_memory_def CacheLevel_access_def get_index_and_tag_def
        split: sum.splits prod.splits)
  from len hit have "probe_result (levels h' ! 0) 128 w' = Inr True"
    "probe_result (levels h' ! 1) 128 w' = Inr True" by simp_all
  with pos ok am hd hitd t show ?thesis
    by (simp add: Let_def)
qed

section \<open>One resolution step keeps the hierarchy well formed\<close>

lemma CacheLevel_insert_only_sets:
  "CacheLevel_insert l a w = Inr (l', w') \<Longrightarrow> l'\<lparr>sets := S\<rparr> = l\<lparr>sets := S\<rparr>"
  by (auto simp: CacheLevel_insert_def split: sum.splits prod.splits)

lemma probe_levels_total:
  assumes "list_all level_ok ls"
  shows "\<exists>pos t ls' w'. probe_levels ls a w = Inr (pos, t, ls', w')
           \<and> list_all level_ok ls' \<and> map name ls' = map name ls"
  using assms
proof (induction ls arbitrary: w)
  case Nil
  then show ?case by simp
next
  case (Cons l ls)
  from Cons.prems have "level_ok l" by simp
  from CacheLevel_access_ok_total [OF this, of a w]
  obtain r l' w' where acc: "CacheLevel_access l a w = Inr (r, l', w')" by blast
  note ok' = CacheLevel_access_keeps_ok [OF acc]
  note nm = CacheLevel_access_frame(3) [OF acc]
  from Cons.prems have oks: "list_all level_ok ls" by simp
  show ?case
  proof (cases r)
    case True
    with acc ok' nm oks show ?thesis by simp
  next
    case False
    from Cons.IH [OF oks, of w']
    obtain pos t ls' w'' where "probe_levels ls a w' = Inr (pos, t, ls', w'')"
      "list_all level_ok ls'" "map name ls' = map name ls" by blast
    with acc ok' nm False show ?thesis by simp
  qed
qed

lemma insert_prefix_keeps:
  "insert_prefix i ls a w = Inr (ls', w') \<Longrightarrow> list_all level_ok ls \<Longrightarrow>
     list_all level_ok ls' \<and> map name ls' = map name ls"
proof (induction i ls a w arbitrary: ls' w' rule: insert_prefix.induct)
  case (1 ls address w)
  then show ?case by simp
next
  case (2 n address w)
  then show ?case by simp
next
  case (3 n l ls address w)
  from "3.prems"(1) obtain l1 w1 ls1 where ins: "CacheLevel_insert l address w = Inr (l1, w1)"
    and rec: "insert_prefix n ls address w1 = Inr (ls1, w')" and ls': "ls' = l1 # ls1"
    by (auto split: sum.splits)
  from "3.IH" [OF ins refl rec] "3.prems"(2) ls'
    CacheLevel_insert_keeps_ok [OF ins] CacheLevel_insert_frame(3) [OF ins]
  show ?case by simp
qed

lemma insert_all_names:
  "insert_all ls a w = Inr (ls', w') \<Longrightarrow> map name ls' = map name ls"
proof (induction ls arbitrary: w ls' w')
  case Nil
  then show ?case by simp
next
  case (Cons l ls)
  from Cons.prems obtain l1 w1 ls1 where ins: "CacheLevel_insert l a w = Inr (l1, w1)"
    and rec: "insert_all ls a w1 = Inr (ls1, w')" and ls': "ls' = l1 # ls1"
    by (auto split: sum.splits)
  from Cons.IH [OF rec] ls' CacheLevel_insert_frame(3) [OF ins] show ?case by simp
qed

lemma access_memory_step:
  assumes ok: "hierarchy_ok h" and names: "''Disk'' \<notin> name ` set (levels h)"
  shows "\<exists>r h' w'. access_memory h a w = Inr (r, h', w')
           \<and> hierarchy_ok h' \<and> map name (levels h') = map name (levels h)
           \<and> misses (disk_level h') = misses (disk_level h)
           \<and> hits (disk_level h') = hits (disk_level h) + (if snd r = ''Disk'' then 1 else 0)
           \<and> (disk_level h')\<lparr>hits := 0, sets := Map.empty\<rparr>
               = (disk_level h)\<lparr>hits := 0, sets := Map.empty\<rparr>"
proof -
  from ok have oks: "list_all level_ok (levels h)" and okd: "level_ok (disk_level h)"
    by (simp_all add: hierarchy_ok_def)
  from probe_levels_total [OF oks, of a w]
  obtain pos t ls w1 where p: "probe_levels (levels h) a w = Inr (pos, t, ls, w1)"
    and ok1: "list_all level_ok ls" and nm1: "map name ls = map name (levels h)" by blast
  show ?thesis
  proof (cases pos)
    case None
    let ?d = "(disk_level h)\<lparr>hits := hits (disk_level h) + 1\<rparr>"
    from okd have "level_ok ?d" by (simp add: level_ok_def)
    from CacheLevel_insert_ok_total [OF this, of a w1]
    obtain d w2 where insd: "CacheLevel_insert ?d a w1 = Inr (d, w2)" by blast
    from insert_all_warm [OF ok1, of a w2]
    obtain ls' w3 where insl: "insert_all ls a w2 = Inr (ls', w3)"
      and ok2: "list_all level_ok ls'" by blast
    from p None insd insl
    have am: "access_memory h a w
          = Inr ((t + access_time (disk_level h), ''Disk''), \<lparr>levels = ls', disk_level = d\<rparr>, w3)"
      by (simp add: access_memory_def)
    from CacheLevel_insert_only_sets [OF insd, of Map.empty]
    have "d\<lparr>hits := 0, sets := Map.empty\<rparr> = (disk_level h)\<lparr>hits := 0, sets := Map.empty\<rparr>"
      by (metis (no_types) CacheLevel.surjective CacheLevel.update_convs(8,9))
    with am ok2 CacheLevel_insert_keeps_ok [OF insd] CacheLevel_insert_frame(8,9) [OF insd]
      insert_all_names [OF insl] nm1
    show ?thesis by (simp add: hierarchy_ok_def)
  next
    case (Some i)
    from probe_levels_hit [OF p [unfolded Some]]
    have i: "i < length (levels h)" and len: "length ls = length (levels h)" by simp_all
    from ok1 have "\<forall>j<i. level_ok (ls ! j)" using i len by (simp add: list_all_length)
    from insert_prefix_warm [OF _ this, of a w1] i len
    obtain ls' w2 where ins: "insert_prefix i ls a w1 = Inr (ls', w2)" by auto
    from p Some ins
    have am: "access_memory h a w = Inr ((t, name (ls ! i)), h\<lparr>levels := ls'\<rparr>, w2)"
      by (simp add: access_memory_def)
    from nm1 i len have "name (ls ! i) = name (levels h ! i)"
      by (metis nth_map)
    with names i have "name (ls ! i) \<noteq> ''Disk''" by (metis imageI nth_mem)
    with am insert_prefix_keeps [OF ins ok1] nm1 okd show ?thesis
      by (simp add: hierarchy_ok_def)
  qed
qed

section \<open>Construction, and runs from a fresh hierarchy\<close>

lemma CacheLevel_init_fault:
  "CacheLevel_init nm sz 0 assoc t pol = Inl ZeroDivisionError"
  by (simp add: CacheLevel_init_def int_truediv_def)

lemma CacheLevel_init_ok:
  assumes "bs \<noteq> 0"
  shows "\<exists>l. CacheLevel_init nm sz bs assoc t pol = Inr l \<and> level_ok l \<and> name l = nm
            \<and> hits l = 0 \<and> misses l = 0 \<and> sets l = Map.empty \<and> block_size l = bs
            \<and> size_bytes l = sz \<and> access_time l = t \<and> level_policy l = pol"
proof -
  have pos: "max 1 q \<noteq> 0" for q :: int by (simp add: max_def)
  from assms show ?thesis
    by (simp add: CacheLevel_init_def int_truediv_def level_ok_def pos)
qed

lemma MemoryHierarchy_init_fault:
  "cfg_block_size c = 0 \<Longrightarrow> MemoryHierarchy_init c = Inl ZeroDivisionError"
  by (simp add: MemoryHierarchy_init_def CacheLevel_init_fault)

lemma MemoryHierarchy_init_ok:
  assumes "cfg_block_size c \<noteq> 0"
  shows "\<exists>h. MemoryHierarchy_init c = Inr h \<and> hierarchy_ok h
            \<and> ''Disk'' \<notin> name ` set (levels h)
            \<and> hits (disk_level h) = 0 \<and> misses (disk_level h) = 0
            \<and> sets (disk_level h) = Map.empty
            \<and> level_policy (disk_level h) = ''FIFO''
            \<and> length (levels h)
                = 2 + (if l2_enabled c then 1 else 0) + (if l3_enabled c then 1 else 0)"
proof -
  from CacheLevel_init_ok [OF assms]
  obtain l1 where l1: "CacheLevel_init ''L1 Cache'' (l1_size c) (cfg_block_size c) (l1_assoc c)
             (l1_time c) (cfg_policy c) = Inr l1" "level_ok l1" "name l1 = ''L1 Cache''"
    by blast
  from CacheLevel_init_ok [OF assms]
  obtain l2 where l2: "CacheLevel_init ''L2 Cache'' (l2_size c) (cfg_block_size c) (l2_assoc c)
             (l2_time c) (cfg_policy c) = Inr l2" "level_ok l2" "name l2 = ''L2 Cache''"
    by blast
  from CacheLevel_init_ok [OF assms]
  obtain l3 where l3: "CacheLevel_init ''L3 Cache'' (l3_size c) (cfg_block_size c) (l3_assoc c)
             (l3_time c) (cfg_policy c) = Inr l3" "level_ok l3" "name l3 = ''L3 Cache''"
    by blast
  from CacheLevel_init_ok [OF assms]
  obtain ram where ram: "CacheLevel_init ''Main Memory (RAM)'' (ram_size c * 1024 * 1024)
             (cfg_block_size c) 8 (ram_time c) (cfg_policy c) = Inr ram" "level_ok ram"
             "name ram = ''Main Memory (RAM)''"
    by blast
  from CacheLevel_init_ok [OF assms]
  obtain disk where disk: "CacheLevel_init ''Secondary Memory (Disk)''
             (disk_size c * 1024 * 1024 * 1024) (cfg_block_size c) 1 (disk_time c) ''FIFO''
             = Inr disk" "level_ok disk" "hits disk = 0" "misses disk = 0"
             "sets disk = Map.empty" "level_policy disk = ''FIFO''"
    by blast
  from l1 l2 l3 ram disk show ?thesis
    by (simp add: MemoryHierarchy_init_def optional_level_def hierarchy_ok_def)
qed

lemma run_accesses_invariant:
  assumes "hierarchy_ok h" and "''Disk'' \<notin> name ` set (levels h)"
  shows "\<exists>rs h' w'. run_accesses as h w = Inr (rs, h', w') \<and> length rs = length as
           \<and> misses (disk_level h') = misses (disk_level h)
           \<and> hits (disk_level h')
               = hits (disk_level h) + int (length (filter (\<lambda>r. snd r = ''Disk'') rs))
           \<and> (disk_level h')\<lparr>hits := 0, sets := Map.empty\<rparr>
               = (disk_level h)\<lparr>hits := 0, sets := Map.empty\<rparr>"
  using assms
proof (induction as arbitrary: h w)
  case Nil
  then show ?case by simp
next
  case (Cons a as)
  from access_memory_step [OF Cons.prems, of a w]
  obtain r h1 w1 where am: "access_memory h a w = Inr (r, h1, w1)"
    and ok1: "hierarchy_ok h1" and nm1: "map name (levels h1) = map name (levels h)"
    and m1: "misses (disk_level h1) = misses (disk_level h)"
    and h1: "hits (disk_level h1) = hits (disk_level h) + (if snd r = ''Disk'' then 1 else 0)"
    and f1: "(disk_level h1)\<lparr>hits := 0, sets := Map.empty\<rparr>
               = (disk_level h)\<lparr>hits := 0, sets := Map.empty\<rparr>"
    by blast
  from nm1 have "name ` set (levels h1) = name ` set (levels h)" by (metis set_map)
  with Cons.prems(2) have "''Disk'' \<notin> name ` set (levels h1)" by simp
  from Cons.IH [OF ok1 this, of w1]
  obtain rs h' w' where rec: "run_accesses as h1 w1 = Inr (rs, h', w')"
    and len: "length rs = length as"
    and m2: "misses (disk_level h') = misses (disk_level h1)"
    and h2: "hits (disk_level h')
               = hits (disk_level h1) + int (length (filter (\<lambda>r. snd r = ''Disk'') rs))"
    and f2: "(disk_level h')\<lparr>hits := 0, sets := Map.empty\<rparr>
               = (disk_level h1)\<lparr>hits := 0, sets := Map.empty\<rparr>"
    by blast
  from am rec have "run_accesses (a # as) h w = Inr (r # rs, h', w')" by simp
  with len m1 m2 h1 h2 f1 f2 show ?case by simp
qed

text \<open>
  C10. From a freshly constructed hierarchy, any sequence of \<^verbatim>\<open>access_memory\<close> calls
  runs to the end, and in the state it reaches the terminal store's \<open>misses\<close> counter
  is 0: its \<open>hits\<close> counter equals the number of calls that resolved through the store,
  and apart from \<open>hits\<close> and the Set contents the store is as the constructor built it.
\<close>

theorem terminal_store_never_misses:
  assumes "MemoryHierarchy_init c = Inr h0"
  shows "\<exists>rs h w'. run_accesses as h0 w = Inr (rs, h, w')
           \<and> misses (disk_level h) = 0
           \<and> hits (disk_level h) = int (length (filter (\<lambda>r. snd r = ''Disk'') rs))
           \<and> (disk_level h)\<lparr>hits := 0, sets := Map.empty\<rparr> = disk_level h0"
proof -
  from assms have "cfg_block_size c \<noteq> 0"
    using MemoryHierarchy_init_fault [of c] by auto
  from MemoryHierarchy_init_ok [OF this] assms
  have ok: "hierarchy_ok h0" and nm: "''Disk'' \<notin> name ` set (levels h0)"
    and z: "hits (disk_level h0) = 0" "misses (disk_level h0) = 0"
       "sets (disk_level h0) = Map.empty"
    by auto
  from z have "(disk_level h0)\<lparr>hits := 0, sets := Map.empty\<rparr> = disk_level h0"
    by (metis (no_types) CacheLevel.surjective CacheLevel.update_convs(8,9))
  with run_accesses_invariant [OF ok nm, of as w] z show ?thesis by auto
qed


theorem terminal_store_never_misses_witness:
  "(let c = \<lparr>cfg_policy = ''LRU'', cfg_block_size = 64,
              l1_size = 32768, l1_assoc = 4, l1_time = 1,
              l2_enabled = False, l2_size = 262144, l2_assoc = 8, l2_time = 5,
              l3_enabled = False, l3_size = 2097152, l3_assoc = 16, l3_time = 15,
              ram_size = 1024, ram_time = 100, disk_size = 500, disk_time = 10000000\<rparr>;
        w = \<lparr>clock = real, ticks = 0, random_source = int, draws = 0\<rparr>
    in \<not> isl (MemoryHierarchy_init c)
       \<and> (\<exists>rs h w'. run_accesses [0, 0] (projr (MemoryHierarchy_init c)) w = Inr (rs, h, w')
             \<and> map snd rs = [''Disk'', ''L1 Cache'']
             \<and> misses (disk_level h) = 0 \<and> hits (disk_level h) = 1))"
proof -
  let ?c = "\<lparr>cfg_policy = ''LRU'', cfg_block_size = 64,
              l1_size = 32768, l1_assoc = 4, l1_time = 1,
              l2_enabled = False, l2_size = 262144, l2_assoc = 8, l2_time = 5,
              l3_enabled = False, l3_size = 2097152, l3_assoc = 16, l3_time = 15,
              ram_size = 1024, ram_time = 100, disk_size = 500, disk_time = 10000000\<rparr>"
  let ?w = "\<lparr>clock = real, ticks = 0, random_source = int, draws = 0\<rparr>"
  have made: "MemoryHierarchy_init ?c = Inr (projr (MemoryHierarchy_init ?c))"
    by (simp add: MemoryHierarchy_init_def optional_level_def CacheLevel_init_def
        int_truediv_def)
  from terminal_store_never_misses [OF made, of "[0, 0]" ?w]
  obtain rs h w' where run: "run_accesses [0, 0] (projr (MemoryHierarchy_init ?c)) ?w = Inr (rs, h, w')"
    and m: "misses (disk_level h) = 0"
    and hd: "hits (disk_level h) = int (length (filter (\<lambda>r. snd r = ''Disk'') rs))"
    by blast
  have "map_sum id (\<lambda>x. map snd (fst x)) (run_accesses [0, 0] (projr (MemoryHierarchy_init ?c)) ?w)
          = Inr [''Disk'', ''L1 Cache'']"
    by (simp add: MemoryHierarchy_init_def optional_level_def CacheLevel_init_def
        int_truediv_def access_memory_def CacheLevel_access_def CacheLevel_insert_def
        get_index_and_tag_def CacheSet_init_def CacheSet_insert_def CacheSet_access_def
        CacheBlock_init_def time_time_def)
  with run have names: "map snd rs = [''Disk'', ''L1 Cache'']" by simp
  then have "length (filter (\<lambda>r. snd r = ''Disk'') rs) = 1"
    by (auto simp: map_eq_Cons_conv)
  with made run m hd names show ?thesis
    by (simp add: Let_def) (metis sum.disc(2))
qed

section \<open>Locality generation\<close>

lemma randint_ok:
  assumes "a \<le> b"
  shows "\<exists>r w'. randint a b w = Inr (r, w') \<and> a \<le> r \<and> r \<le> b"
proof -
  let ?x = "random_source w (draws w)"
  from assms have k: "0 < b - a + 1" by simp
  have "0 \<le> ?x mod (b - a + 1)" using k by (rule pos_mod_sign)
  moreover have "?x mod (b - a + 1) < b - a + 1" using k by (rule pos_mod_bound)
  ultimately have "a \<le> a + ?x mod (b - a + 1)" "a + ?x mod (b - a + 1) \<le> b" by linarith+
  with assms show ?thesis by (simp add: randint_def random_draw_def)
qed

lemma locality_loop_total:
  assumes "n div 10 \<noteq> 0" and "0 < m"
  shows "\<exists>as w'. locality_loop m n idx hot acc w = Inr (as, w')
            \<and> length as = length acc + length idx"
  using assms
proof (induction idx arbitrary: hot acc w)
  case Nil
  then show ?case by simp
next
  case (Cons i idx)
  obtain hot' w1 where h:
    "(if int i mod (n div 10) = 0 then randint 0 m w else Inr (hot, w)) = Inr (hot', w1)"
    using randint_ok [of 0 m w] Cons.prems(2) by (cases "int i mod (n div 10) = 0") auto
  obtain off w2 where d: "random_draw w1 = (off, w2)" by (cases "random_draw w1")
  from Cons.IH [OF Cons.prems, of hot'
      "acc @ [\<bar>hot' + off\<bar> mod m - (\<bar>hot' + off\<bar> mod m) mod 4]" w2]
  obtain as w' where "locality_loop m n idx hot'
      (acc @ [\<bar>hot' + off\<bar> mod m - (\<bar>hot' + off\<bar> mod m) mod 4]) w2 = Inr (as, w')"
    "length as = Suc (length acc) + length idx" by auto
  with h d Cons.prems show ?case by simp
qed

lemma generate_locality_large:
  assumes "10 \<le> n" and "0 < max_address g"
  shows "\<exists>as w'. generate_locality g n w = Inr (as, w') \<and> length as = nat n"
proof -
  from assms(1) have nz: "n div 10 \<noteq> 0" by presburger
  from randint_ok [of 0 "max_address g" w] assms(2)
  obtain hot w1 where r: "randint 0 (max_address g) w = Inr (hot, w1)" by auto
  from locality_loop_total [OF nz assms(2), of "[0 ..< nat n]" hot "[]" w1] r
  show ?thesis by (auto simp: generate_locality_def)
qed

text \<open>
  C6. The spec asks that locality generation with fewer than ten requested addresses
  produce its addresses. In the source the modulus test divides by
  \<^verbatim>\<open>num_requests // 10\<close>, which is 0 for such a count, so the first iteration of the
  loop raises a ZeroDivisionError: for every count \<open>n\<close> with \<open>0 < n < 10\<close> and every bound
  \<open>max_address \<ge> 0\<close> the call fails, whatever the random source.
\<close>

theorem generate_locality_small_count_faults:
  assumes "0 < n" and "n < 10" and "0 \<le> max_address g"
  shows "generate_locality g n w = Inl ZeroDivisionError"
proof -
  from assms(3) randint_ok [of 0 "max_address g" w]
  obtain hot w1 where r: "randint 0 (max_address g) w = Inr (hot, w1)" by auto
  from assms(1) obtain rest where idx: "[0 ..< nat n] = 0 # rest"
    by (cases "nat n") (auto simp: upt_rec)
  from assms(1,2) have "n div 10 = 0" by simp
  with r idx show ?thesis by (simp add: generate_locality_def)
qed

theorem generate_locality_small_count_faults_witness:
  "generate_locality \<lparr>max_address = 1024\<rparr> 5
     \<lparr>clock = real, ticks = 0, random_source = int, draws = 0\<rparr> = Inl ZeroDivisionError"
  using generate_locality_small_count_faults [of 5 "\<lparr>max_address = 1024\<rparr>"
      "\<lparr>clock = real, ticks = 0, random_source = int, draws = 0\<rparr>"]
  by simp

section \<open>Construction without validation, and the analyzer\<close>

text \<open>
  C7 (as amended). \<^verbatim>\<open>AccessPatternGenerator.__init__\<close> has no check: for every
  \<open>max_address\<close>, positive or not, construction succeeds and stores the bound unchanged.
\<close>

theorem generator_construction_never_fails:
  "AccessPatternGenerator_init m = Inr \<lparr>max_address = m\<rparr>"
  by (simp add: AccessPatternGenerator_init_def)

text \<open>C7 as stated fails: a bound of 0, or a negative one, is accepted.\<close>

theorem generator_accepts_zero_bound:
  "AccessPatternGenerator_init 0 = Inr \<lparr>max_address = 0\<rparr>
   \<and> AccessPatternGenerator_init (- 5) = Inr \<lparr>max_address = - 5\<rparr>"
  by (simp add: AccessPatternGenerator_init_def)





end
